theory Spec2Isabelle
  imports Main "HOL-Library.Word" "HOL-Library.FSet"
begin

section \<open>The data model of \<^verbatim>\<open>crdt.h\<close>\<close>

text \<open>
  \<^verbatim>\<open>struct Tag { string replica_id; uint64_t counter; }\<close>. Its \<^verbatim>\<open>operator==\<close> compares
  both fields, which is the equality of the record; its \<^verbatim>\<open>operator<\<close> only serves the
  ordered container and decides no result of any operation.
\<close>

record Tag =
  tag_replica_id :: string
  counter :: "64 word"

text \<open>
  \<^verbatim>\<open>class ORSet\<close> with its four private members. \<^verbatim>\<open>set<pair<string, Tag>>\<close> and
  \<^verbatim>\<open>unordered_set<string>\<close> are finite sets without duplicates: \<open>fset\<close>.
  \<^verbatim>\<open>local_counter\<close> is a \<^verbatim>\<open>uint64_t\<close>, so \<^verbatim>\<open>local_counter++\<close> wraps at \<open>2 ^ 64\<close>.
\<close>

record ORSet =
  replica_id :: string
  local_counter :: "64 word"
  internal_set :: "(string \<times> Tag) fset"
  element_cache :: "string fset"

section \<open>The operations\<close>

text \<open>The constructor \<^verbatim>\<open>ORSet(const string& id) : replica_id(id), local_counter(0) {}\<close>.\<close>

definition new_ORSet :: "string \<Rightarrow> ORSet" where
  "new_ORSet ident =
     \<lparr>replica_id = ident, local_counter = 0, internal_set = {||}, element_cache = {||}\<rparr>"

text \<open>
  \<^verbatim>\<open>add\<close>: increment the counter, build the tag from the incremented counter, insert the
  pair and the element.
\<close>

definition add :: "ORSet \<Rightarrow> string \<Rightarrow> ORSet" where
  "add s element =
     (let c = local_counter s + 1;
          tag = \<lparr>tag_replica_id = replica_id s, counter = c\<rparr>
      in s\<lparr>local_counter := c,
           internal_set := finsert (element, tag) (internal_set s),
           element_cache := finsert element (element_cache s)\<rparr>)"

text \<open>
  \<^verbatim>\<open>remove\<close> runs three loops. The first collects in \<^verbatim>\<open>tags_to_remove\<close> the second
  component of every pair whose first component is the element; the second erases
  \<^verbatim>\<open>{element, tag}\<close> for every collected tag; the third scans what is left for a pair of
  the element, and the cache entry is erased when there is none. Each loop body looks
  at the current pair or tag only, so the result of a loop does not depend on the order
  in which the container is traversed, and each loop is the set it computes.
\<close>

definition tags_to_remove :: "ORSet \<Rightarrow> string \<Rightarrow> Tag fset" where
  "tags_to_remove s element = snd |`| ffilter (\<lambda>p. fst p = element) (internal_set s)"

definition erase_tags :: "(string \<times> Tag) fset \<Rightarrow> string \<Rightarrow> Tag fset \<Rightarrow> (string \<times> Tag) fset" where
  "erase_tags st element tags = st |-| (\<lambda>t. (element, t)) |`| tags"

definition still_exists :: "(string \<times> Tag) fset \<Rightarrow> string \<Rightarrow> bool" where
  "still_exists st element = fBex st (\<lambda>p. fst p = element)"

definition remove :: "ORSet \<Rightarrow> string \<Rightarrow> ORSet" where
  "remove s element =
     (let st = erase_tags (internal_set s) element (tags_to_remove s element)
      in if \<not> still_exists st element
         then s\<lparr>internal_set := st, element_cache := element_cache s |-| {|element|}\<rparr>
         else s\<lparr>internal_set := st\<rparr>)"

definition contains :: "ORSet \<Rightarrow> string \<Rightarrow> bool" where
  "contains s element = (element |\<in>| element_cache s)"

definition elements :: "ORSet \<Rightarrow> string fset" where
  "elements s = element_cache s"

text \<open>\<^verbatim>\<open>merge\<close> inserts the other replica's pairs, then the other replica's cache.\<close>

definition merge :: "ORSet \<Rightarrow> ORSet \<Rightarrow> ORSet" where
  "merge s other =
     s\<lparr>internal_set := internal_set s |\<union>| internal_set other,
       element_cache := element_cache s |\<union>| element_cache other\<rparr>"

text \<open>
  The sizes are \<^verbatim>\<open>size_t\<close> counts of containers that are in memory; they are natural
  numbers here.
\<close>

definition size_ORSet :: "ORSet \<Rightarrow> nat" where
  "size_ORSet s = fcard (element_cache s)"

definition internal_size :: "ORSet \<Rightarrow> nat" where
  "internal_size s = fcard (internal_set s)"

definition get_counter :: "ORSet \<Rightarrow> 64 word" where
  "get_counter s = local_counter s"

section \<open>Cache consistency\<close>

text \<open>
  I1: the membership cache holds exactly the elements that have a pair in the store.
\<close>

definition I1 :: "ORSet \<Rightarrow> bool" where
  "I1 s = (element_cache s = fst |`| internal_set s)"

section \<open>Sequences of calls on one replica\<close>

text \<open>
  The three mutating methods as calls; \<^verbatim>\<open>merge\<close> takes the other replica's state by
  \<^verbatim>\<open>const&\<close> and only reads it, so the call carries that state as a value.
\<close>

datatype call = Add string | Remove string | Merge ORSet

fun apply_call :: "ORSet \<Rightarrow> call \<Rightarrow> ORSet" where
  "apply_call s (Add e) = add s e"
| "apply_call s (Remove e) = remove s e"
| "apply_call s (Merge other) = merge s other"

definition run :: "ORSet \<Rightarrow> call list \<Rightarrow> ORSet" where
  "run s calls = foldl apply_call s calls"

text \<open>A call is admissible when the snapshot it merges, if any, satisfies I1.\<close>

fun merge_ok :: "call \<Rightarrow> bool" where
  "merge_ok (Merge other) = I1 other"
| "merge_ok (Add e) = True"
| "merge_ok (Remove e) = True"

fun is_add :: "call \<Rightarrow> bool" where
  "is_add (Add e) = True"
| "is_add (Remove e) = False"
| "is_add (Merge other) = False"

definition count_adds :: "call list \<Rightarrow> nat" where
  "count_adds calls = length (filter is_add calls)"

section \<open>Several replicas\<close>

text \<open>
  A system is a list of replicas, each owning its state, together with the list of the
  pairs that \<^verbatim>\<open>add\<close> calls have created so far, in the order of the calls. A call
  names the replica it runs on by its position; \<^verbatim>\<open>A.merge(B)\<close> reads the current state
  of \<open>B\<close>. A call on a position that holds no replica changes nothing.
\<close>

record system =
  replicas :: "ORSet list"
  issued :: "(string \<times> Tag) list"

datatype sys_call = AddAt nat string | RemoveAt nat string | MergeInto nat nat

definition new_system :: "string list \<Rightarrow> system" where
  "new_system ids = \<lparr>replicas = map new_ORSet ids, issued = []\<rparr>"

text \<open>The pair that \<^verbatim>\<open>add\<close> inserts: the element with the tag of the incremented counter.\<close>

definition fresh_entry :: "ORSet \<Rightarrow> string \<Rightarrow> string \<times> Tag" where
  "fresh_entry s element =
     (element, \<lparr>tag_replica_id = replica_id s, counter = local_counter s + 1\<rparr>)"

fun sys_step :: "system \<Rightarrow> sys_call \<Rightarrow> system" where
  "sys_step sy (AddAt i e) =
     (if i < length (replicas sy)
      then sy\<lparr>replicas := (replicas sy)[i := add (replicas sy ! i) e],
              issued := issued sy @ [fresh_entry (replicas sy ! i) e]\<rparr>
      else sy)"
| "sys_step sy (RemoveAt i e) =
     (if i < length (replicas sy)
      then sy\<lparr>replicas := (replicas sy)[i := remove (replicas sy ! i) e]\<rparr>
      else sy)"
| "sys_step sy (MergeInto i j) =
     (if i < length (replicas sy) \<and> j < length (replicas sy)
      then sy\<lparr>replicas := (replicas sy)[i := merge (replicas sy ! i) (replicas sy ! j)]\<rparr>
      else sy)"

definition sys_run :: "system \<Rightarrow> sys_call list \<Rightarrow> system" where
  "sys_run sy calls = foldl sys_step sy calls"

text \<open>The number of \<^verbatim>\<open>add\<close> calls that replica \<open>i\<close> performs in a sequence of calls.\<close>

fun is_add_at :: "nat \<Rightarrow> sys_call \<Rightarrow> bool" where
  "is_add_at i (AddAt j e) = (i = j)"
| "is_add_at i (RemoveAt j e) = False"
| "is_add_at i (MergeInto j k) = False"

definition adds_at :: "nat \<Rightarrow> sys_call list \<Rightarrow> nat" where
  "adds_at i calls = length (filter (is_add_at i) calls)"

text \<open>
  The invariant of a system that started from fresh replicas with the identifiers \<open>ids\<close>
  and has performed \<open>calls\<close>: every replica keeps its identifier, its counter is the
  number of its \<^verbatim>\<open>add\<close> calls (as a \<^verbatim>\<open>uint64_t\<close>), every issued tag is the identifier
  of a replica with the number of one of its \<^verbatim>\<open>add\<close> calls, issued tags are pairwise
  different, and every stored pair has been issued.
\<close>

definition sys_inv :: "string list \<Rightarrow> sys_call list \<Rightarrow> system \<Rightarrow> bool" where
  "sys_inv ids calls sy \<longleftrightarrow>
     length (replicas sy) = length ids
     \<and> (\<forall>i<length ids. replica_id (replicas sy ! i) = ids ! i
            \<and> local_counter (replicas sy ! i) = of_nat (adds_at i calls))
     \<and> (\<forall>p\<in>set (issued sy). \<exists>i<length ids. \<exists>k. 0 < k \<and> k \<le> adds_at i calls
            \<and> snd p = \<lparr>tag_replica_id = ids ! i, counter = of_nat k\<rparr>)
     \<and> distinct (map snd (issued sy))
     \<and> (\<forall>i<length ids. fset (internal_set (replicas sy ! i)) \<subseteq> set (issued sy))"

section \<open>The two-replica walkthrough\<close>

text \<open>The states of \<^verbatim>\<open>main\<close> in \<^verbatim>\<open>crdt.cpp\<close>, statement by statement.\<close>

definition A1 :: ORSet where "A1 = add (new_ORSet ''A'') ''apple''"
definition B1 :: ORSet where "B1 = add (new_ORSet ''B'') ''apple''"
definition A2 :: ORSet where "A2 = merge A1 B1"
definition B2 :: ORSet where "B2 = merge B1 A2"
definition A3 :: ORSet where "A3 = remove A2 ''apple''"
definition B3 :: ORSet where "B3 = add B2 ''apple''"
definition B4 :: ORSet where "B4 = merge B3 A3"
definition A4 :: ORSet where "A4 = merge A3 B4"

text \<open>The same walkthrough as calls on a system of the two replicas.\<close>

definition walk_calls :: "sys_call list" where
  "walk_calls =
     [AddAt 0 ''apple'', AddAt 1 ''apple'', MergeInto 0 1, MergeInto 1 0,
      RemoveAt 0 ''apple'', AddAt 1 ''apple'', MergeInto 1 0, MergeInto 0 1]"

lemmas ORSet_defs =
  new_ORSet_def add_def remove_def merge_def contains_def elements_def
  tags_to_remove_def erase_tags_def still_exists_def
  size_ORSet_def internal_size_def get_counter_def

lemmas walk_defs = A1_def B1_def A2_def B2_def A3_def B3_def B4_def A4_def

section \<open>What \<^verbatim>\<open>remove\<close> computes\<close>

lemma retag_ffilter:
  "(\<lambda>t. (x, t)) |`| (snd |`| ffilter (\<lambda>p. fst p = x) st) = ffilter (\<lambda>p. fst p = x) st"
proof (rule fset_eqI)
  fix p :: "'a \<times> 'b"
  obtain a b where p: "p = (a, b)" by (cases p)
  show "p |\<in>| (\<lambda>t. (x, t)) |`| (snd |`| ffilter (\<lambda>p. fst p = x) st)
        \<longleftrightarrow> p |\<in>| ffilter (\<lambda>p. fst p = x) st"
    unfolding p by force
qed

lemma fminus_ffilter: "st |-| ffilter P st = ffilter (\<lambda>p. \<not> P p) st"
  by (rule fset_eqI) auto

lemma erase_tags_collected:
  "erase_tags (internal_set s) x (tags_to_remove s x) =
   ffilter (\<lambda>p. fst p \<noteq> x) (internal_set s)"
  by (simp only: erase_tags_def tags_to_remove_def retag_ffilter fminus_ffilter)

lemma not_still_exists: "\<not> still_exists (ffilter (\<lambda>p. fst p \<noteq> x) st) x"
  by (simp add: still_exists_def)

text \<open>
  The second loop erases every pair of the element, so the third loop never finds one
  and the cache entry is always erased.
\<close>

lemma remove_eq:
  "remove s x = s\<lparr>internal_set := ffilter (\<lambda>p. fst p \<noteq> x) (internal_set s),
                  element_cache := element_cache s |-| {|x|}\<rparr>"
  by (simp only: remove_def erase_tags_collected not_still_exists Let_def
        not_False_eq_True if_True)

lemma ffilter_absent:
  "x |\<notin>| fst |`| st \<Longrightarrow> ffilter (\<lambda>p. fst p \<noteq> x) st = st"
  by (rule fset_eqI) force

lemma fminus_absent: "x |\<notin>| c \<Longrightarrow> c |-| {|x|} = c"
  by (rule fset_eqI) auto

lemma fimage_fst_ffilter:
  "fst |`| ffilter (\<lambda>p. fst p \<noteq> x) st = (fst |`| st) |-| {|x|}"
  by (rule fset_eqI) force

section \<open>Each operation keeps the cache consistent\<close>

lemma I1_new: "I1 (new_ORSet ident)"
  by (simp add: I1_def new_ORSet_def)

lemma I1_add: "I1 s \<Longrightarrow> I1 (add s e)"
  by (simp add: I1_def add_def Let_def)

lemma I1_remove: "I1 s \<Longrightarrow> I1 (remove s e)"
  by (simp add: I1_def remove_eq fimage_fst_ffilter)

lemma I1_merge: "I1 s \<Longrightarrow> I1 other \<Longrightarrow> I1 (merge s other)"
  by (simp add: I1_def merge_def fimage_funion)

lemma I1_A2: "I1 A2"
  by (simp add: I1_def walk_defs ORSet_defs)

lemma I1_A3: "I1 A3"
  by (simp add: I1_def walk_defs ORSet_defs)

lemma I1_B1: "I1 B1"
  by (simp add: I1_def walk_defs ORSet_defs)

section \<open>Arithmetic of the 64-bit counter\<close>

lemma len64: "(2::nat) ^ LENGTH(64) = 2 ^ 64"
proof -
  have "LENGTH(64) = 64" by simp
  then show ?thesis by (simp only:)
qed

lemma unat_of_nat_64:
  assumes "k < 2 ^ 64"
  shows "unat (of_nat k :: 64 word) = k"
proof (rule of_nat_inverse [OF refl])
  show "k < 2 ^ LENGTH(64)"
    using assms by (simp only: len64)
qed

lemma unat_of_nat_mod_64: "unat (of_nat k :: 64 word) = k mod 2 ^ 64"
  using unat_of_nat [where 'a = 64, of k] by (simp only: len64)

lemma unat_add_1_64: "unat (w + 1 :: 64 word) = (unat w + 1) mod 2 ^ 64"
  using unat_word_ariths(1) [of w 1] by (simp only: len64 unat_1)

lemma of_nat_wrap_64: "(of_nat (2 ^ 64) :: 64 word) = 0"
  using of_nat_2p [where 'a = 64] by (simp only: len64)

lemma of_nat_wrap_64_Suc: "(of_nat (2 ^ 64 + 1) :: 64 word) = 1"
  using of_nat_wrap_64 by (simp only: of_nat_add of_nat_1 add_0_left)

lemma mod_inj_pos:
  fixes k m N :: nat
  assumes "0 < k" "k \<le> N" "0 < m" "m \<le> N" "k mod N = m mod N"
  shows "k = m"
proof (cases "k = N")
  case True
  then have "m mod N = 0" using assms(5) by simp
  then have "\<not> m < N" using assms(3) by auto
  then show ?thesis using True assms(4) by simp
next
  case False
  then have k: "k < N" using assms(2) by simp
  then have "m mod N = k" using assms(5) by simp
  then have "\<not> m = N" using assms(1) by auto
  then have "m < N" using assms(4) by simp
  then show ?thesis using k assms(5) by simp
qed

text \<open>
  The counter values \<open>1, \<dots>, 2 ^ 64\<close> are pairwise different as \<^verbatim>\<open>uint64_t\<close>: the last
  one is \<open>0\<close>, which no earlier one is.
\<close>

lemma of_nat_64_inj_pos:
  assumes eq: "(of_nat k :: 64 word) = of_nat m"
    and k: "0 < k" "k \<le> 2 ^ 64" and m: "0 < m" "m \<le> 2 ^ 64"
  shows "k = m"
proof -
  have "unat (of_nat k :: 64 word) = unat (of_nat m :: 64 word)"
    using eq by (rule arg_cong)
  then have "k mod 2 ^ 64 = m mod 2 ^ 64"
    by (simp only: unat_of_nat_mod_64)
  with k m show ?thesis
    by (rule mod_inj_pos)
qed

section \<open>The fields after each operation\<close>

lemma replica_id_add: "replica_id (add s e) = replica_id s"
  by (simp add: add_def Let_def)

lemma local_counter_add: "local_counter (add s e) = local_counter s + 1"
  by (simp add: add_def Let_def)

lemma internal_set_add: "internal_set (add s e) = finsert (fresh_entry s e) (internal_set s)"
  by (simp add: add_def fresh_entry_def Let_def)

lemma replica_id_remove: "replica_id (remove s e) = replica_id s"
  by (simp add: remove_eq)

lemma local_counter_remove: "local_counter (remove s e) = local_counter s"
  by (simp add: remove_eq)

lemma internal_set_remove_subset: "fset (internal_set (remove s e)) \<subseteq> fset (internal_set s)"
  by (auto simp: remove_eq)

lemma replica_id_merge: "replica_id (merge s other) = replica_id s"
  by (simp add: merge_def)

lemma local_counter_merge: "local_counter (merge s other) = local_counter s"
  by (simp add: merge_def)

lemma internal_set_merge:
  "fset (internal_set (merge s other)) = fset (internal_set s) \<union> fset (internal_set other)"
  by (simp add: merge_def)

section \<open>Sequences of calls on one replica\<close>

lemma I1_apply_call: "I1 s \<Longrightarrow> merge_ok c \<Longrightarrow> I1 (apply_call s c)"
  by (cases c) (simp_all add: I1_add I1_remove I1_merge)

lemma I1_run: "I1 s \<Longrightarrow> list_all merge_ok calls \<Longrightarrow> I1 (run s calls)"
  unfolding run_def
  by (induction calls arbitrary: s) (simp_all add: I1_apply_call)

lemma local_counter_apply_call:
  "local_counter (apply_call s c) = local_counter s + (if is_add c then 1 else 0)"
  by (cases c) (simp_all add: local_counter_add local_counter_remove local_counter_merge)

lemma local_counter_run:
  "local_counter (run s calls) = local_counter s + of_nat (count_adds calls)"
  unfolding run_def count_adds_def
  by (induction calls arbitrary: s) (simp_all add: local_counter_apply_call)

lemma count_adds_replicate: "count_adds (replicate n (Add e)) = n"
  by (simp add: count_adds_def)

lemma get_counter_run_new:
  "get_counter (run (new_ORSet ident) calls) = of_nat (count_adds calls)"
proof -
  have "local_counter (new_ORSet ident) = 0"
    by (simp add: new_ORSet_def)
  then show ?thesis
    by (simp only: get_counter_def local_counter_run add_0_left)
qed

section \<open>The invariant of a system of replicas\<close>

lemma sys_invI:
  assumes "length (replicas sy) = length ids"
    and "\<And>i. i < length ids \<Longrightarrow> replica_id (replicas sy ! i) = ids ! i"
    and "\<And>i. i < length ids \<Longrightarrow> local_counter (replicas sy ! i) = of_nat (adds_at i calls)"
    and "\<And>p. p \<in> set (issued sy) \<Longrightarrow> \<exists>i<length ids. \<exists>k. 0 < k \<and> k \<le> adds_at i calls
            \<and> snd p = \<lparr>tag_replica_id = ids ! i, counter = of_nat k\<rparr>"
    and "distinct (map snd (issued sy))"
    and "\<And>i. i < length ids \<Longrightarrow> fset (internal_set (replicas sy ! i)) \<subseteq> set (issued sy)"
  shows "sys_inv ids calls sy"
  unfolding sys_inv_def using assms by blast

lemma sys_inv_length: "sys_inv ids calls sy \<Longrightarrow> length (replicas sy) = length ids"
  unfolding sys_inv_def by blast

lemma sys_inv_id:
  "sys_inv ids calls sy \<Longrightarrow> i < length ids \<Longrightarrow> replica_id (replicas sy ! i) = ids ! i"
  unfolding sys_inv_def by blast

lemma sys_inv_counter:
  "sys_inv ids calls sy \<Longrightarrow> i < length ids \<Longrightarrow>
   local_counter (replicas sy ! i) = of_nat (adds_at i calls)"
  unfolding sys_inv_def by blast

lemma sys_inv_issued:
  "sys_inv ids calls sy \<Longrightarrow> p \<in> set (issued sy) \<Longrightarrow>
   \<exists>i<length ids. \<exists>k. 0 < k \<and> k \<le> adds_at i calls
      \<and> snd p = \<lparr>tag_replica_id = ids ! i, counter = of_nat k\<rparr>"
  unfolding sys_inv_def by blast

lemma sys_inv_distinct: "sys_inv ids calls sy \<Longrightarrow> distinct (map snd (issued sy))"
  unfolding sys_inv_def by blast

lemma sys_inv_store:
  "sys_inv ids calls sy \<Longrightarrow> i < length ids \<Longrightarrow>
   fset (internal_set (replicas sy ! i)) \<subseteq> set (issued sy)"
  unfolding sys_inv_def by blast

lemma sys_inv_new: "sys_inv ids [] (new_system ids)"
  by (rule sys_invI) (simp_all add: new_system_def new_ORSet_def adds_at_def)

lemma adds_at_snoc:
  "adds_at i (calls @ [c]) = adds_at i calls + (if is_add_at i c then 1 else 0)"
  by (simp add: adds_at_def)

text \<open>
  A call that issues no pair, changes no identifier and no counter, and leaves every
  store within the issued pairs keeps the invariant.
\<close>

lemma sys_inv_quiet:
  assumes inv: "sys_inv ids calls sy"
    and len: "length (replicas sy') = length (replicas sy)"
    and ids: "\<And>i. i < length ids \<Longrightarrow> replica_id (replicas sy' ! i) = replica_id (replicas sy ! i)"
    and cnt: "\<And>i. i < length ids \<Longrightarrow>
               local_counter (replicas sy' ! i) = local_counter (replicas sy ! i)"
    and iss: "issued sy' = issued sy"
    and sto: "\<And>i. i < length ids \<Longrightarrow>
               fset (internal_set (replicas sy' ! i)) \<subseteq> set (issued sy)"
    and adds: "\<And>i. i < length ids \<Longrightarrow> adds_at i calls' = adds_at i calls"
  shows "sys_inv ids calls' sy'"
proof (rule sys_invI)
  show "length (replicas sy') = length ids"
    using len sys_inv_length [OF inv] by simp
  show "replica_id (replicas sy' ! i) = ids ! i" if "i < length ids" for i
    using ids [OF that] sys_inv_id [OF inv that] by simp
  show "local_counter (replicas sy' ! i) = of_nat (adds_at i calls')" if "i < length ids" for i
    using cnt [OF that] sys_inv_counter [OF inv that] adds [OF that] by simp
  show "\<exists>i<length ids. \<exists>k. 0 < k \<and> k \<le> adds_at i calls'
            \<and> snd p = \<lparr>tag_replica_id = ids ! i, counter = of_nat k\<rparr>"
    if mem: "p \<in> set (issued sy')" for p
  proof -
    obtain i k where i: "i < length ids" and k: "0 < k" "k \<le> adds_at i calls"
      and t: "snd p = \<lparr>tag_replica_id = ids ! i, counter = of_nat k\<rparr>"
      using sys_inv_issued [OF inv, of p] mem iss by auto
    have "k \<le> adds_at i calls'"
      using k adds [OF i] by simp
    with i k(1) t show ?thesis by blast
  qed
  show "distinct (map snd (issued sy'))"
    using sys_inv_distinct [OF inv] iss by simp
  show "fset (internal_set (replicas sy' ! i)) \<subseteq> set (issued sy')" if "i < length ids" for i
    using sto [OF that] iss by simp
qed

lemma sys_inv_RemoveAt:
  assumes inv: "sys_inv ids calls sy"
  shows "sys_inv ids (calls @ [RemoveAt j e]) (sys_step sy (RemoveAt j e))"
proof (rule sys_inv_quiet [OF inv])
  show "length (replicas (sys_step sy (RemoveAt j e))) = length (replicas sy)"
    by simp
  show "replica_id (replicas (sys_step sy (RemoveAt j e)) ! i) = replica_id (replicas sy ! i)"
    for i
    by (simp add: nth_list_update replica_id_remove)
  show "local_counter (replicas (sys_step sy (RemoveAt j e)) ! i)
        = local_counter (replicas sy ! i)" for i
    by (simp add: nth_list_update local_counter_remove)
  show "issued (sys_step sy (RemoveAt j e)) = issued sy"
    by simp
  show "fset (internal_set (replicas (sys_step sy (RemoveAt j e)) ! i)) \<subseteq> set (issued sy)"
    if "i < length ids" for i
    using sys_inv_store [OF inv that] internal_set_remove_subset [of "replicas sy ! i" e]
    by (auto simp: nth_list_update)
  show "adds_at i (calls @ [RemoveAt j e]) = adds_at i calls" if "i < length ids" for i
    by (simp add: adds_at_snoc)
qed

lemma sys_inv_MergeInto:
  assumes inv: "sys_inv ids calls sy"
  shows "sys_inv ids (calls @ [MergeInto j k]) (sys_step sy (MergeInto j k))"
proof (rule sys_inv_quiet [OF inv])
  show "length (replicas (sys_step sy (MergeInto j k))) = length (replicas sy)"
    by simp
  show "replica_id (replicas (sys_step sy (MergeInto j k)) ! i) = replica_id (replicas sy ! i)"
    for i
    by (simp add: nth_list_update replica_id_merge)
  show "local_counter (replicas (sys_step sy (MergeInto j k)) ! i)
        = local_counter (replicas sy ! i)" for i
    by (simp add: nth_list_update local_counter_merge)
  show "issued (sys_step sy (MergeInto j k)) = issued sy"
    by simp
  show "fset (internal_set (replicas (sys_step sy (MergeInto j k)) ! i)) \<subseteq> set (issued sy)"
    if "i < length ids" for i
  proof (cases "i = j \<and> j < length (replicas sy) \<and> k < length (replicas sy)")
    case True
    then have "k < length ids"
      using sys_inv_length [OF inv] by simp
    then show ?thesis
      using True sys_inv_store [OF inv that] sys_inv_store [OF inv \<open>k < length ids\<close>]
      by (simp add: internal_set_merge)
  next
    case False
    then show ?thesis
      using sys_inv_store [OF inv that] by (auto simp: nth_list_update)
  qed
  show "adds_at i (calls @ [MergeInto j k]) = adds_at i calls" if "i < length ids" for i
    by (simp add: adds_at_snoc)
qed

lemma fresh_entry_inv:
  assumes inv: "sys_inv ids calls sy" and j: "j < length ids"
  shows "fresh_entry (replicas sy ! j) e
         = (e, \<lparr>tag_replica_id = ids ! j, counter = of_nat (Suc (adds_at j calls))\<rparr>)"
  by (simp add: fresh_entry_def sys_inv_id [OF inv j] sys_inv_counter [OF inv j])

text \<open>
  An \<^verbatim>\<open>add\<close> keeps the invariant as long as the replica has then made at most \<open>2 ^ 64\<close>
  \<^verbatim>\<open>add\<close> calls: its new counter value differs from all its earlier ones.
\<close>

lemma sys_inv_AddAt:
  assumes inv: "sys_inv ids calls sy"
    and dist: "distinct ids"
    and bound: "\<And>i. i < length ids \<Longrightarrow> adds_at i (calls @ [AddAt j e]) \<le> 2 ^ 64"
  shows "sys_inv ids (calls @ [AddAt j e]) (sys_step sy (AddAt j e))"
proof (cases "j < length ids")
  case False
  then have out: "\<not> j < length (replicas sy)"
    using sys_inv_length [OF inv] by simp
  show ?thesis
  proof (rule sys_inv_quiet [OF inv])
    show "fset (internal_set (replicas (sys_step sy (AddAt j e)) ! i)) \<subseteq> set (issued sy)"
      if "i < length ids" for i
      using sys_inv_store [OF inv that] out by simp
    show "adds_at i (calls @ [AddAt j e]) = adds_at i calls" if "i < length ids" for i
      using that False by (auto simp: adds_at_snoc)
  qed (simp_all add: out)
next
  case True
  then have jl: "j < length (replicas sy)"
    using sys_inv_length [OF inv] by simp
  let ?r = "replicas sy ! j"
  let ?t = "\<lparr>tag_replica_id = ids ! j, counter = of_nat (Suc (adds_at j calls))\<rparr>"
  have fresh: "fresh_entry ?r e = (e, ?t)"
    using inv True by (rule fresh_entry_inv)
  have reps: "replicas (sys_step sy (AddAt j e)) = (replicas sy)[j := add ?r e]"
    using jl by simp
  have iss: "issued (sys_step sy (AddAt j e)) = issued sy @ [(e, ?t)]"
    using jl fresh by simp
  have adds_j: "adds_at j (calls @ [AddAt j e]) = Suc (adds_at j calls)"
    by (simp add: adds_at_snoc)
  have adds_other: "adds_at i (calls @ [AddAt j e]) = adds_at i calls" if "i \<noteq> j" for i
    using that by (simp add: adds_at_snoc)
  have adds_mono: "adds_at i calls \<le> adds_at i (calls @ [AddAt j e])" for i
    by (simp add: adds_at_snoc)
  have below: "Suc (adds_at j calls) \<le> 2 ^ 64"
    using bound [OF True] by (simp only: adds_j)
  show ?thesis
  proof (rule sys_invI)
    show "length (replicas (sys_step sy (AddAt j e))) = length ids"
      using sys_inv_length [OF inv] by (simp only: reps length_list_update)
  next
    fix i assume i: "i < length ids"
    show "replica_id (replicas (sys_step sy (AddAt j e)) ! i) = ids ! i"
      using sys_inv_id [OF inv i] jl
      unfolding reps by (cases "i = j") (simp_all add: replica_id_add)
    show "local_counter (replicas (sys_step sy (AddAt j e)) ! i)
          = of_nat (adds_at i (calls @ [AddAt j e]))"
    proof (cases "i = j")
      case True
      then show ?thesis
        using sys_inv_counter [OF inv i] jl
        unfolding reps by (simp add: local_counter_add adds_j)
    next
      case False
      then show ?thesis
        using sys_inv_counter [OF inv i] unfolding reps by (simp add: adds_other)
    qed
    show "fset (internal_set (replicas (sys_step sy (AddAt j e)) ! i))
          \<subseteq> set (issued (sys_step sy (AddAt j e)))"
    proof (cases "i = j")
      case True
      then show ?thesis
        using sys_inv_store [OF inv i] jl
        unfolding reps iss by (auto simp: internal_set_add fresh)
    next
      case False
      then show ?thesis
        using sys_inv_store [OF inv i] unfolding reps iss by auto
    qed
  next
    fix p assume "p \<in> set (issued (sys_step sy (AddAt j e)))"
    then consider (old) "p \<in> set (issued sy)" | (new) "p = (e, ?t)"
      unfolding iss by auto
    then show "\<exists>i<length ids. \<exists>k. 0 < k \<and> k \<le> adds_at i (calls @ [AddAt j e])
                 \<and> snd p = \<lparr>tag_replica_id = ids ! i, counter = of_nat k\<rparr>"
    proof cases
      case old
      then obtain i k where "i < length ids" "0 < k" "k \<le> adds_at i calls"
        "snd p = \<lparr>tag_replica_id = ids ! i, counter = of_nat k\<rparr>"
        using sys_inv_issued [OF inv] by blast
      then show ?thesis
        using adds_mono [of i] le_trans by blast
    next
      case new
      have "0 < Suc (adds_at j calls)" by simp
      moreover have "Suc (adds_at j calls) \<le> adds_at j (calls @ [AddAt j e])"
        by (simp only: adds_j)
      moreover have "snd p = ?t"
        using new by simp
      ultimately show ?thesis
        using True by blast
    qed
  next
    have "?t \<notin> snd ` set (issued sy)"
    proof
      assume "?t \<in> snd ` set (issued sy)"
      then obtain p where p: "p \<in> set (issued sy)" and sp: "snd p = ?t"
        by force
      obtain i k where i: "i < length ids" and k: "0 < k" "k \<le> adds_at i calls"
        and t: "snd p = \<lparr>tag_replica_id = ids ! i, counter = of_nat k\<rparr>"
        using sys_inv_issued [OF inv p] by blast
      have "ids ! i = ids ! j" and w: "(of_nat k :: 64 word) = of_nat (Suc (adds_at j calls))"
        using sp t by simp_all
      then have ij: "i = j"
        using dist i True by (simp add: nth_eq_iff_index_eq)
      have kb: "k \<le> 2 ^ 64"
        using k(2) below ij by simp
      have pos: "0 < Suc (adds_at j calls)" by simp
      have "k = Suc (adds_at j calls)"
        using w k(1) kb pos below by (rule of_nat_64_inj_pos)
      then show False
        using k(2) ij by simp
    qed
    then show "distinct (map snd (issued (sys_step sy (AddAt j e))))"
      using sys_inv_distinct [OF inv] unfolding iss by simp
  qed
qed

lemma sys_run_snoc: "sys_run sy (calls @ [c]) = sys_step (sys_run sy calls) c"
  by (simp add: sys_run_def)

lemma sys_inv_step:
  assumes inv: "sys_inv ids calls sy"
    and dist: "distinct ids"
    and bound: "\<And>i. i < length ids \<Longrightarrow> adds_at i (calls @ [c]) \<le> 2 ^ 64"
  shows "sys_inv ids (calls @ [c]) (sys_step sy c)"
proof (cases c)
  case (AddAt j e)
  show ?thesis
    unfolding AddAt using inv dist bound [unfolded AddAt] by (rule sys_inv_AddAt)
next
  case (RemoveAt j e)
  show ?thesis
    unfolding RemoveAt using inv by (rule sys_inv_RemoveAt)
next
  case (MergeInto j k)
  show ?thesis
    unfolding MergeInto using inv by (rule sys_inv_MergeInto)
qed

lemma sys_inv_run:
  assumes dist: "distinct ids"
  shows "(\<And>i. i < length ids \<Longrightarrow> adds_at i calls \<le> 2 ^ 64) \<Longrightarrow>
         sys_inv ids calls (sys_run (new_system ids) calls)"
proof (induction calls rule: rev_induct)
  case Nil
  show ?case
    using sys_inv_new by (simp add: sys_run_def)
next
  case (snoc c calls)
  have "adds_at i calls \<le> 2 ^ 64" if "i < length ids" for i
  proof -
    have "adds_at i calls \<le> adds_at i (calls @ [c])"
      by (simp add: adds_at_snoc)
    then show ?thesis
      using snoc.prems [OF that] by (rule le_trans)
  qed
  then have "sys_inv ids calls (sys_run (new_system ids) calls)"
    by (rule snoc.IH)
  then show ?case
    unfolding sys_run_snoc using dist snoc.prems by (rule sys_inv_step)
qed

text \<open>One replica that only adds: the tags it issues, in the order of the calls.\<close>

lemma replicate_snoc: "replicate (Suc n) x = replicate n x @ [x]"
  by (simp add: replicate_append_same)

lemma adds_only:
  "length (replicas (sys_run (new_system [a]) (replicate n (AddAt 0 e)))) = 1
   \<and> replica_id (replicas (sys_run (new_system [a]) (replicate n (AddAt 0 e))) ! 0) = a
   \<and> local_counter (replicas (sys_run (new_system [a]) (replicate n (AddAt 0 e))) ! 0) = of_nat n
   \<and> map snd (issued (sys_run (new_system [a]) (replicate n (AddAt 0 e))))
       = map (\<lambda>k. \<lparr>tag_replica_id = a, counter = of_nat (Suc k)\<rparr>) [0..<n]"
proof (induction n)
  case 0
  show ?case
    by (simp add: sys_run_def new_system_def new_ORSet_def)
next
  case (Suc n)
  let ?sy = "sys_run (new_system [a]) (replicate n (AddAt 0 e))"
  have step: "sys_run (new_system [a]) (replicate (Suc n) (AddAt 0 e)) = sys_step ?sy (AddAt 0 e)"
    by (simp only: replicate_snoc sys_run_snoc)
  show ?case
    unfolding step using Suc.IH
    by (simp add: fresh_entry_def replica_id_add local_counter_add)
qed

lemma repeated_tag:
  assumes "0 < n" and "(of_nat (Suc n) :: 64 word) = 1"
  shows "\<not> distinct (map snd (issued (sys_run (new_system [a]) (replicate (Suc n) (AddAt 0 e)))))"
proof
  define ts where
    "ts = map (\<lambda>k. \<lparr>tag_replica_id = a, counter = of_nat (Suc k) :: 64 word\<rparr>) [0..<Suc n]"
  assume "distinct (map snd (issued (sys_run (new_system [a]) (replicate (Suc n) (AddAt 0 e)))))"
  then have d: "distinct ts"
    unfolding ts_def using adds_only [of a "Suc n" e] by (simp only:)
  have len: "length ts = Suc n"
    by (simp add: ts_def del: upt_Suc)
  have first: "ts ! 0 = \<lparr>tag_replica_id = a, counter = 1\<rparr>"
    by (simp add: ts_def del: upt_Suc)
  have last: "ts ! n = \<lparr>tag_replica_id = a, counter = of_nat (Suc n)\<rparr>"
    by (simp add: ts_def del: upt_Suc)
  have "ts ! 0 = ts ! n"
    unfolding first last assms(2) by (rule refl)
  then have "0 = n"
    using d len by (simp add: nth_eq_iff_index_eq)
  then show False
    using assms(1) by simp
qed

section \<open>The claims\<close>

subsection \<open>C1: the two-replica walkthrough\<close>

text \<open>
  C1. In the walkthrough of \<^verbatim>\<open>main\<close>, after \<^verbatim>\<open>A.add("apple"); B.add("apple");
  A.merge(B); B.merge(A)\<close> both replicas contain \<^verbatim>\<open>"apple"\<close> and have size 1; after the
  further \<^verbatim>\<open>A.remove("apple"); B.add("apple"); B.merge(A); A.merge(B)\<close> both replicas
  contain \<^verbatim>\<open>"apple"\<close> again.
\<close>

theorem walkthrough_add_wins:
  "contains A2 ''apple'' \<and> contains B2 ''apple'' \<and> size_ORSet A2 = 1 \<and> size_ORSet B2 = 1
   \<and> contains A4 ''apple'' \<and> contains B4 ''apple''"
  by (simp add: walk_defs ORSet_defs fcard_finsert_if)

subsection \<open>C2: cache consistency\<close>

text \<open>
  C2. Cache consistency (I1): a replica reached from a fresh one by any sequence of
  \<^verbatim>\<open>add\<close>, \<^verbatim>\<open>remove\<close> and \<^verbatim>\<open>merge\<close> calls, where every merged snapshot satisfies I1,
  has as its cache exactly the elements that have a pair in its store; and merging one
  more snapshot that satisfies I1 keeps it so, although \<^verbatim>\<open>merge\<close> extends the cache from
  the other cache and not from the united store.
\<close>

theorem cache_consistency:
  assumes "list_all merge_ok calls"
  shows "I1 (run (new_ORSet ident) calls)
         \<and> (\<forall>other. I1 other \<longrightarrow> I1 (merge (run (new_ORSet ident) calls) other))"
proof -
  have "I1 (run (new_ORSet ident) calls)"
    using I1_new assms by (rule I1_run)
  then show ?thesis
    by (simp add: I1_merge)
qed

theorem cache_consistency_witness:
  "list_all merge_ok [Add ''apple'', Merge B1, Remove ''apple'', Merge B1]
   \<and> I1 (run (new_ORSet ''A'') [Add ''apple'', Merge B1, Remove ''apple'', Merge B1])
   \<and> I1 (merge (run (new_ORSet ''A'') [Add ''apple'', Merge B1, Remove ''apple'', Merge B1]) B1)"
proof -
  have ok: "list_all merge_ok [Add ''apple'', Merge B1, Remove ''apple'', Merge B1]"
    by (simp add: I1_B1)
  show ?thesis
    using cache_consistency [OF ok, of "''A''"] ok I1_B1 by blast
qed

subsection \<open>C3: merge is idempotent\<close>

text \<open>
  C3. Merge is idempotent: merging the same state \<open>b\<close> into \<open>a\<close> a second time changes
  nothing, so the state, its store and its \<^verbatim>\<open>elements()\<close> are those after one merge.
\<close>

theorem merge_idempotent:
  "merge (merge a b) b = merge a b
   \<and> elements (merge (merge a b) b) = elements (merge a b)
   \<and> internal_set (merge (merge a b) b) = internal_set (merge a b)"
  by (simp add: merge_def elements_def funion_assoc)

subsection \<open>C4: merge is commutative\<close>

text \<open>
  C4. Merge is commutative and converges to the union: \<open>a\<close> after merging \<open>b\<close> and \<open>b\<close>
  after merging (a copy of) \<open>a\<close> have the same \<^verbatim>\<open>elements()\<close>, the union of the two
  element sets, and the same store, the union of the two stores.
\<close>

theorem merge_commutative_union:
  "elements (merge a b) = elements (merge b a)
   \<and> elements (merge a b) = elements a |\<union>| elements b
   \<and> internal_set (merge a b) = internal_set (merge b a)
   \<and> internal_set (merge a b) = internal_set a |\<union>| internal_set b"
  by (simp add: merge_def elements_def funion_commute)

subsection \<open>C5: no duplicate tags\<close>

text \<open>
  C5, as stated, for any number of \<^verbatim>\<open>add\<close> calls: it fails once a replica has made more
  than \<open>2 ^ 64\<close> of them. The counter is a \<^verbatim>\<open>uint64_t\<close>; after \<open>2 ^ 64\<close> increments it is
  \<open>0\<close> again, and the next \<^verbatim>\<open>add\<close> of replica \<^verbatim>\<open>"A"\<close> issues the tag \<open>(A, 1)\<close> of its
  first \<^verbatim>\<open>add\<close>.
\<close>

theorem duplicate_tag_after_wrap:
  "\<not> distinct (map snd (issued (sys_run (new_system [''A''])
        (replicate (2 ^ 64 + 1) (AddAt 0 ''x'')))))"
proof -
  have pos: "(0::nat) < 2 ^ 64" by simp
  have wrap: "(of_nat (Suc (2 ^ 64)) :: 64 word) = 1"
    using of_nat_wrap_64_Suc by (simp only: Suc_eq_plus1)
  show ?thesis
    using repeated_tag [OF pos wrap, of "''A''" "''x''"] unfolding Suc_eq_plus1 .
qed

text \<open>
  C5, amended. For replicas constructed with pairwise distinct identifiers and any
  interleaving of \<^verbatim>\<open>add\<close>, \<^verbatim>\<open>remove\<close> and \<^verbatim>\<open>merge\<close> calls among them in which no replica
  makes more than \<open>2 ^ 64\<close> \<^verbatim>\<open>add\<close> calls: no two \<^verbatim>\<open>add\<close> calls produce the same tag,
  every pair in a store is one that an \<^verbatim>\<open>add\<close> call produced, and two stored pairs with
  the same tag, in one store or in two, are the same pair.
\<close>

theorem no_duplicate_tags:
  assumes "distinct ids" and "\<forall>i<length ids. adds_at i calls \<le> 2 ^ 64"
  shows "distinct (map snd (issued (sys_run (new_system ids) calls)))
         \<and> (\<forall>r\<in>set (replicas (sys_run (new_system ids) calls)).
               fset (internal_set r) \<subseteq> set (issued (sys_run (new_system ids) calls)))
         \<and> (\<forall>r\<in>set (replicas (sys_run (new_system ids) calls)).
             \<forall>r'\<in>set (replicas (sys_run (new_system ids) calls)).
             \<forall>p q. p |\<in>| internal_set r \<and> q |\<in>| internal_set r' \<and> snd p = snd q \<longrightarrow> p = q)"
proof -
  let ?sy = "sys_run (new_system ids) calls"
  have inv: "sys_inv ids calls ?sy"
    using assms by (intro sys_inv_run) simp_all
  have d: "distinct (map snd (issued ?sy))"
    using inv by (rule sys_inv_distinct)
  have sub: "fset (internal_set r) \<subseteq> set (issued ?sy)"
    if mem: "r \<in> set (replicas ?sy)" for r
  proof -
    obtain i where "i < length (replicas ?sy)" "r = replicas ?sy ! i"
      using mem by (auto simp: in_set_conv_nth)
    then show ?thesis
      using sys_inv_store [OF inv, of i] sys_inv_length [OF inv] by simp
  qed
  have inj: "inj_on snd (set (issued ?sy))"
    using d by (simp add: distinct_map)
  have uniq: "p = q"
    if "r \<in> set (replicas ?sy)" "r' \<in> set (replicas ?sy)"
      "p |\<in>| internal_set r" "q |\<in>| internal_set r'" "snd p = snd q" for r r' p q
  proof -
    have "p \<in> set (issued ?sy)" "q \<in> set (issued ?sy)"
      using sub [OF that(1)] sub [OF that(2)] that(3,4) by auto
    with inj that(5) show ?thesis
      by (rule inj_onD)
  qed
  show ?thesis
    using d sub uniq by blast
qed

theorem no_duplicate_tags_witness:
  "distinct [''A'', ''B'']
   \<and> adds_at 0 walk_calls \<le> 2 ^ 64 \<and> adds_at 1 walk_calls \<le> 2 ^ 64
   \<and> length (issued (sys_run (new_system [''A'', ''B'']) walk_calls)) = 3
   \<and> distinct (map snd (issued (sys_run (new_system [''A'', ''B'']) walk_calls)))"
proof -
  have ids: "distinct [''A'', ''B'']" by simp
  have a0: "adds_at 0 walk_calls = 1" and a1: "adds_at 1 walk_calls = 2"
    by (simp_all add: adds_at_def walk_calls_def)
  have small: "(1::nat) \<le> 2 ^ 64" "(2::nat) \<le> 2 ^ 64" by simp_all
  have bound: "\<forall>i<length [''A'', ''B'']. adds_at i walk_calls \<le> 2 ^ 64"
  proof (intro allI impI)
    fix i :: nat assume "i < length [''A'', ''B'']"
    then have "i = 0 \<or> i = 1" by auto
    then show "adds_at i walk_calls \<le> 2 ^ 64"
      using small a0 a1 by auto
  qed
  have len: "length (issued (sys_run (new_system [''A'', ''B'']) walk_calls)) = 3"
    by (simp add: sys_run_def new_system_def walk_calls_def)
  have b0: "adds_at 0 walk_calls \<le> 2 ^ 64" and b1: "adds_at 1 walk_calls \<le> 2 ^ 64"
    using small a0 a1 by simp_all
  show ?thesis
    using no_duplicate_tags [OF ids bound] ids b0 b1 len by blast
qed

subsection \<open>C6: the postcondition of remove\<close>

text \<open>
  C6. Postcondition of \<^verbatim>\<open>remove\<close>: from a state satisfying I1, after \<^verbatim>\<open>remove(x)\<close> the
  store holds no pair \<open>(x, t)\<close>, \<^verbatim>\<open>contains(x)\<close> is false and \<open>x\<close> is not in
  \<^verbatim>\<open>elements()\<close>.
\<close>

theorem remove_postcondition:
  "I1 s \<Longrightarrow>
   (\<forall>t. (x, t) |\<notin>| internal_set (remove s x))
   \<and> \<not> contains (remove s x) x
   \<and> x |\<notin>| elements (remove s x)"
  by (simp add: remove_eq contains_def elements_def)

theorem remove_postcondition_witness:
  "I1 A2 \<and> (''apple'', \<lparr>tag_replica_id = ''A'', counter = 1\<rparr>) |\<in>| internal_set A2
   \<and> (\<forall>t. (''apple'', t) |\<notin>| internal_set (remove A2 ''apple''))
   \<and> \<not> contains (remove A2 ''apple'') ''apple''
   \<and> ''apple'' |\<notin>| elements (remove A2 ''apple'')"
proof -
  have "(''apple'', \<lparr>tag_replica_id = ''A'', counter = 1\<rparr>) |\<in>| internal_set A2"
    by (simp add: walk_defs ORSet_defs)
  then show ?thesis
    using remove_postcondition [OF I1_A2, of "''apple''"] I1_A2 by simp
qed

subsection \<open>C7: remove of an absent element\<close>

text \<open>
  C7. \<^verbatim>\<open>remove\<close> of an absent element is a no-op: from a state satisfying I1 in which
  \<open>x\<close> has no pair in the store, \<^verbatim>\<open>remove(x)\<close> returns the state unchanged (store, cache,
  size and counter). The operation has no failing branch.
\<close>

theorem remove_absent_noop:
  assumes "I1 s" and "x |\<notin>| fst |`| internal_set s"
  shows "remove s x = s
         \<and> size_ORSet (remove s x) = size_ORSet s
         \<and> local_counter (remove s x) = local_counter s"
proof -
  have "element_cache s = fst |`| internal_set s"
    using assms(1) by (simp only: I1_def)
  then have "x |\<notin>| element_cache s"
    using assms(2) by simp
  then have "remove s x = s"
    using assms(2) by (simp add: remove_eq ffilter_absent fminus_absent)
  then show ?thesis by simp
qed

theorem remove_absent_noop_witness:
  "I1 A3 \<and> ''apple'' |\<notin>| fst |`| internal_set A3 \<and> remove A3 ''apple'' = A3"
proof -
  have absent: "''apple'' |\<notin>| fst |`| internal_set A3"
    by (simp add: walk_defs ORSet_defs)
  show ?thesis
    using remove_absent_noop [OF I1_A3 absent] I1_A3 absent by simp
qed

subsection \<open>C8: the counter\<close>

text \<open>
  C8, as stated, for every number \<open>n\<close> of \<^verbatim>\<open>add\<close> calls: it fails at \<open>n = 2 ^ 64\<close>. After
  \<open>2 ^ 64\<close> \<^verbatim>\<open>add\<close> calls on a fresh replica \<^verbatim>\<open>get_counter()\<close> returns \<open>0\<close>: the last of
  them took the counter from \<open>2 ^ 64 - 1\<close> to \<open>0\<close>.
\<close>

theorem counter_wraps:
  "count_adds (replicate (2 ^ 64) (Add ''x'')) = 2 ^ 64
   \<and> unat (get_counter (run (new_ORSet ''A'') (replicate (2 ^ 64) (Add ''x'')))) = 0"
  by (simp only: count_adds_replicate get_counter_run_new of_nat_wrap_64 unat_0 simp_thms)

text \<open>
  C8, amended. A fresh replica has counter \<open>0\<close>; every \<^verbatim>\<open>add\<close> increases the counter by
  \<open>1\<close> modulo \<open>2 ^ 64\<close>; \<^verbatim>\<open>remove\<close> and \<^verbatim>\<open>merge\<close> leave it unchanged (the queries
  \<^verbatim>\<open>contains\<close>, \<^verbatim>\<open>elements\<close>, \<^verbatim>\<open>size\<close> and \<^verbatim>\<open>internal_size\<close> are \<^verbatim>\<open>const\<close> and return no
  state); so after \<open>n\<close> \<^verbatim>\<open>add\<close> calls among any other calls \<^verbatim>\<open>get_counter()\<close> returns
  \<open>n mod 2 ^ 64\<close>, which is \<open>n\<close> when \<open>n < 2 ^ 64\<close>.
\<close>

theorem counter_evolution:
  "get_counter (new_ORSet ident) = 0
   \<and> local_counter (add s e) = local_counter s + 1
   \<and> unat (local_counter (add s e)) = (unat (local_counter s) + 1) mod 2 ^ 64
   \<and> local_counter (remove s e) = local_counter s
   \<and> local_counter (merge s other) = local_counter s
   \<and> unat (get_counter (run (new_ORSet ident) calls)) = count_adds calls mod 2 ^ 64
   \<and> (count_adds calls < 2 ^ 64 \<longrightarrow>
        unat (get_counter (run (new_ORSet ident) calls)) = count_adds calls)"
proof -
  have fresh: "get_counter (new_ORSet ident) = 0"
    by (simp add: get_counter_def new_ORSet_def)
  have wrap: "unat (local_counter (add s e)) = (unat (local_counter s) + 1) mod 2 ^ 64"
    by (simp only: local_counter_add unat_add_1_64)
  have n: "unat (get_counter (run (new_ORSet ident) calls)) = count_adds calls mod 2 ^ 64"
    by (simp only: get_counter_run_new unat_of_nat_mod_64)
  have below: "count_adds calls < 2 ^ 64 \<longrightarrow>
        unat (get_counter (run (new_ORSet ident) calls)) = count_adds calls"
  proof
    assume h: "count_adds calls < 2 ^ 64"
    show "unat (get_counter (run (new_ORSet ident) calls)) = count_adds calls"
      by (simp only: get_counter_run_new unat_of_nat_64 [OF h])
  qed
  show ?thesis
    using fresh wrap n below local_counter_add [of s e] local_counter_remove [of s e]
      local_counter_merge [of s other]
    by blast
qed

theorem counter_evolution_witness:
  "count_adds [Add ''apple'', Remove ''apple'', Merge B1, Add ''pear''] < 2 ^ 64
   \<and> unat (get_counter (run (new_ORSet ''A'')
        [Add ''apple'', Remove ''apple'', Merge B1, Add ''pear''])) = 2"
proof -
  have two: "count_adds [Add ''apple'', Remove ''apple'', Merge B1, Add ''pear''] = 2"
    by (simp add: count_adds_def)
  have small: "(2::nat) < 2 ^ 64" by simp
  show ?thesis
    using counter_evolution
      [of "''A''" _ _ _ "[Add ''apple'', Remove ''apple'', Merge B1, Add ''pear'']"] small
    unfolding two by blast
qed

subsection \<open>C9: the empty string\<close>

text \<open>
  C9. The empty string is an ordinary element: no operation has a branch that rejects
  it, after \<^verbatim>\<open>add("")\<close> the replica contains \<^verbatim>\<open>""\<close> and lists it in \<^verbatim>\<open>elements()\<close>,
  after \<^verbatim>\<open>remove("")\<close> it does not, and \<^verbatim>\<open>add\<close> answers for every element as it does
  for the empty one.
\<close>

theorem empty_string_element:
  "contains (add s []) [] \<and> [] |\<in>| elements (add s [])
   \<and> ([], \<lparr>tag_replica_id = replica_id s, counter = local_counter s + 1\<rparr>)
        |\<in>| internal_set (add s [])
   \<and> \<not> contains (remove s []) []
   \<and> (\<forall>e. contains (add s e) e = contains (add s []) []
          \<and> (e |\<in>| elements (add s e)) = ([] |\<in>| elements (add s [])))"
  by (simp add: add_def remove_eq contains_def elements_def Let_def)

subsection \<open>C10: the frame of remove\<close>

text \<open>
  C10. Frame of \<^verbatim>\<open>remove\<close>: for \<open>x \<noteq> y\<close>, \<^verbatim>\<open>remove(x)\<close> leaves the pairs of \<open>y\<close>,
  \<^verbatim>\<open>contains(y)\<close>, the replica id and the counter as they were; the store afterwards is
  the old store without the pairs whose element is \<open>x\<close>.
\<close>

theorem remove_frame:
  "x \<noteq> y \<Longrightarrow>
   ffilter (\<lambda>p. fst p = y) (internal_set (remove s x)) = ffilter (\<lambda>p. fst p = y) (internal_set s)
   \<and> contains (remove s x) y = contains s y
   \<and> replica_id (remove s x) = replica_id s
   \<and> local_counter (remove s x) = local_counter s
   \<and> internal_set (remove s x) = ffilter (\<lambda>p. fst p \<noteq> x) (internal_set s)"
  by (auto simp: remove_eq contains_def)

theorem remove_frame_witness:
  "''apple'' \<noteq> ''pear''
   \<and> ffilter (\<lambda>p. fst p = ''pear'') (internal_set (remove (add A2 ''pear'') ''apple''))
       = ffilter (\<lambda>p. fst p = ''pear'') (internal_set (add A2 ''pear''))
   \<and> contains (remove (add A2 ''pear'') ''apple'') ''pear''"
proof -
  have ne: "''apple'' \<noteq> ''pear''" by simp
  have "contains (add A2 ''pear'') ''pear''"
    by (simp add: add_def contains_def Let_def)
  with ne show ?thesis
    using remove_frame [OF ne, of "add A2 ''pear''"] by blast
qed

end
